theory Spec2Isabelle
  imports Complex_Main "HOL-Library.Word" "HOL-Library.Sublist"
begin

unbundle bit_operations_syntax

section \<open>JavaScript values\<close>

text \<open>
  A JavaScript number is a finite value or one of the three special values. The finite
  values are kept as rationals (every finite double is one); \<open>-0\<close> and \<open>0\<close> are the same
  value here, which is what \<open>===\<close>, truthiness and the integer coercion make of them.
\<close>

datatype number = Fin rat | NaN | PosInf | NegInf

text \<open>
  The values the program handles. Objects and functions are references: two of them are
  the same value exactly when they are the same object.
\<close>

datatype jsval =
    Undefined
  | Null
  | Bool bool
  | Num number
  | Str string
  | Obj nat
  | Fun nat

text \<open>\<open>a === b\<close>: equality without conversion; \<open>NaN\<close> is not equal to itself.\<close>

definition strict_eq :: "jsval \<Rightarrow> jsval \<Rightarrow> bool" where
  "strict_eq a b = (a = b \<and> a \<noteq> Num NaN)"

text \<open>What \<open>if (v)\<close>, \<open>v && w\<close> and \<open>v || w\<close> test.\<close>

fun truthy :: "jsval \<Rightarrow> bool" where
  "truthy Undefined = False"
| "truthy Null = False"
| "truthy (Bool b) = b"
| "truthy (Num n) = (n \<noteq> Fin 0 \<and> n \<noteq> NaN)"
| "truthy (Str s) = (s \<noteq> [])"
| "truthy (Obj _) = True"
| "truthy (Fun _) = True"

text \<open>\<open>a || b\<close>\<close>

definition js_or :: "jsval \<Rightarrow> jsval \<Rightarrow> jsval" where
  "js_or a b = (if truthy a then a else b)"

text \<open>\<open>children && children[0]\<close>, for a \<open>children\<close> that is an array or is missing.\<close>

fun first_child :: "jsval list option \<Rightarrow> jsval" where
  "first_child None = Undefined"
| "first_child (Some []) = Undefined"
| "first_child (Some (c # cs)) = c"

text \<open>\<open>typeof v === "function"\<close>\<close>

fun is_function :: "jsval \<Rightarrow> bool" where
  "is_function (Fun _) = True"
| "is_function _ = False"

subsection \<open>The 32-bit integer coercion of the bitwise operators\<close>

text \<open>The integer part of a finite number, rounded towards zero.\<close>

definition js_truncate :: "rat \<Rightarrow> int" where
  "js_truncate q = (if 0 \<le> q then \<lfloor>q\<rfloor> else \<lceil>q\<rceil>)"

text \<open>
  ToInt32, which every bitwise operator applies to its operands: \<open>NaN\<close> and the infinities
  become 0, a finite number is truncated and reduced modulo \<open>2 ^ 32\<close>.
\<close>

fun toInt32 :: "number \<Rightarrow> 32 word" where
  "toInt32 (Fin q) = word_of_int (js_truncate q)"
| "toInt32 NaN = 0"
| "toInt32 PosInf = 0"
| "toInt32 NegInf = 0"

text \<open>The number a 32-bit result stands for: the word read as two's complement.\<close>

definition int32 :: "32 word \<Rightarrow> number" where
  "int32 w = Fin (of_int (sint w))"

text \<open>\<open>a | b\<close> and \<open>a & b\<close>\<close>

definition bit_or :: "number \<Rightarrow> number \<Rightarrow> number" where
  "bit_or a b = int32 (toInt32 a OR toInt32 b)"

definition bit_and :: "number \<Rightarrow> number \<Rightarrow> number" where
  "bit_and a b = int32 (toInt32 a AND toInt32 b)"

definition MAX_SIGNED_31_BIT_INT :: number where
  "MAX_SIGNED_31_BIT_INT = Fin 1073741823"

text \<open>
  The signed 31-bit integers, from \<open>- (2 ^ 30)\<close> to \<open>2 ^ 30 - 1\<close>: the domain whose largest
  member is \<open>MAX_SIGNED_31_BIT_INT\<close>. This is the specification's domain of change
  descriptors and interest masks, written from its words.
\<close>

definition signed_31_bit :: "number \<Rightarrow> bool" where
  "signed_31_bit m = (\<exists>i \<in> {- 1073741824 .. 1073741823 :: int}. m = Fin (of_int i))"

section \<open>ContextProvider\<close>

text \<open>
  A \<open>StateUpdater\<close> is a function object, known by its identity. The bitmask factory is a
  function of the old and the new value.
\<close>

type_synonym updater = nat
type_synonym BitmaskFactory = "jsval \<Rightarrow> jsval \<Rightarrow> number"

text \<open>
  The provider holds its value and, in \<open>_updaters\<close>, a reference to an array object. The
  array objects live in a heap, a reference is an index into it: \<open>push\<close> changes the
  array a reference points to, \<open>filter\<close> makes a new array and leaves the old one alone.
\<close>

record ContextProvider =
  cur_value :: jsval
  updaters_ref :: nat
  heap :: "updater list list"

text \<open>\<open>new ContextProvider(initialValue)\<close>, in a heap that holds nothing else.\<close>

definition new_ContextProvider :: "jsval \<Rightarrow> ContextProvider" where
  "new_ContextProvider initialValue =
     \<lparr>cur_value = initialValue, updaters_ref = 0, heap = [[]]\<rparr>"

text \<open>The subscriber list: the array \<open>_updaters\<close> points to.\<close>

definition updaters :: "ContextProvider \<Rightarrow> updater list" where
  "updaters s = heap s ! updaters_ref s"

text \<open>The reference in \<open>_updaters\<close> points into the heap.\<close>

definition well_formed :: "ContextProvider \<Rightarrow> bool" where
  "well_formed s = (updaters_ref s < length (heap s))"

text \<open>\<open>this._updaters.push(updater)\<close>: the array is changed in place.\<close>

definition push :: "updater \<Rightarrow> ContextProvider \<Rightarrow> ContextProvider" where
  "push u s = s\<lparr>heap := (heap s)[updaters_ref s := heap s ! updaters_ref s @ [u]]\<rparr>"

text \<open>
  \<open>this._updaters = this._updaters.filter(i => i !== updater)\<close>: a new array is allocated
  and \<open>_updaters\<close> is pointed to it.
\<close>

definition unregister :: "updater \<Rightarrow> ContextProvider \<Rightarrow> ContextProvider" where
  "unregister u s =
     s\<lparr>updaters_ref := length (heap s),
       heap := heap s @ [filter (\<lambda>i. i \<noteq> u) (heap s ! updaters_ref s)]\<rparr>"

text \<open>
  What an updater does when it is called is not part of the provider. An updater may call
  back into the provider it is registered with; its body is given as the list of provider
  methods it calls, in order, as a function of the updater and of the arguments it is
  called with.
\<close>

datatype call = Register updater | Unregister updater | SetValue jsval BitmaskFactory

type_synonym bodies = "updater \<Rightarrow> jsval \<Rightarrow> number \<Rightarrow> call list"

text \<open>
  One call of an updater, with the value and bitmask it was given and the calls of
  updaters made while it ran.
\<close>

datatype event = Invoked updater jsval number "event list"

fun call_of :: "event \<Rightarrow> updater \<times> jsval \<times> number" where
  "call_of (Invoked u v m es) = (u, v, m)"

text \<open>The function \<open>register\<close> returns: \<open>() => this.unregister(updater)\<close>.\<close>

datatype handle = Unsubscribe updater

fun call_handle :: "handle \<Rightarrow> ContextProvider \<Rightarrow> ContextProvider" where
  "call_handle (Unsubscribe u) s = unregister u s"

text \<open>
  \<open>register\<close>, \<open>setValue\<close> and the \<open>forEach\<close> of \<open>setValue\<close>, together with the updaters
  they call. The first argument bounds the depth of nested updater calls (the call
  stack); \<open>None\<close> is the stack running out. \<open>forEach\<close> reads the length of the array once,
  before the first call, and then visits the indices below it in order, reading each
  element from the array when its turn comes and skipping an index the array no longer
  has.
\<close>

function invoke :: "nat \<Rightarrow> bodies \<Rightarrow> updater \<Rightarrow> jsval \<Rightarrow> number \<Rightarrow> ContextProvider
      \<Rightarrow> (ContextProvider \<times> event) option"
and run_calls :: "nat \<Rightarrow> bodies \<Rightarrow> call list \<Rightarrow> ContextProvider
      \<Rightarrow> (ContextProvider \<times> event list) option"
and hub_call :: "nat \<Rightarrow> bodies \<Rightarrow> call \<Rightarrow> ContextProvider
      \<Rightarrow> (ContextProvider \<times> event list) option"
and register :: "nat \<Rightarrow> bodies \<Rightarrow> updater \<Rightarrow> ContextProvider
      \<Rightarrow> (ContextProvider \<times> event list \<times> handle) option"
and setValue :: "nat \<Rightarrow> bodies \<Rightarrow> jsval \<Rightarrow> BitmaskFactory \<Rightarrow> ContextProvider
      \<Rightarrow> (ContextProvider \<times> event list) option"
and forEach :: "nat \<Rightarrow> bodies \<Rightarrow> nat \<Rightarrow> nat list \<Rightarrow> jsval \<Rightarrow> number \<Rightarrow> ContextProvider
      \<Rightarrow> (ContextProvider \<times> event list) option"
where
  "invoke 0 B u v m s = None"
| "invoke (Suc n) B u v m s =
     (case run_calls n B (B u v m) s of
        None \<Rightarrow> None
      | Some (s', es) \<Rightarrow> Some (s', Invoked u v m es))"
| "run_calls n B [] s = Some (s, [])"
| "run_calls n B (c # cs) s =
     (case hub_call n B c s of
        None \<Rightarrow> None
      | Some (s1, es1) \<Rightarrow>
          (case run_calls n B cs s1 of
             None \<Rightarrow> None
           | Some (s2, es2) \<Rightarrow> Some (s2, es1 @ es2)))"
| "hub_call n B (Register u) s =
     (case register n B u s of
        None \<Rightarrow> None
      | Some (s', es, _) \<Rightarrow> Some (s', es))"
| "hub_call n B (Unregister u) s = Some (unregister u s, [])"
| "hub_call n B (SetValue v f) s = setValue n B v f s"
| "register n B u s =
     (case invoke n B u (cur_value (push u s)) (Fin 0) (push u s) of
        None \<Rightarrow> None
      | Some (s', e) \<Rightarrow> Some (s', [e], Unsubscribe u))"
| "setValue n B newValue bitmaskFactory s =
     (if strict_eq newValue (cur_value s) then Some (s, [])
      else
        let diff = bit_or (bitmaskFactory (cur_value s) newValue) (Fin 0);
            s1 = s\<lparr>cur_value := newValue\<rparr>
        in forEach n B (updaters_ref s1) [0 ..< length (heap s1 ! updaters_ref s1)]
             newValue diff s1)"
| "forEach n B a [] v m s = Some (s, [])"
| "forEach n B a (k # ks) v m s =
     (if k < length (heap s ! a) then
        (case invoke n B (heap s ! a ! k) v m s of
           None \<Rightarrow> None
         | Some (s1, e) \<Rightarrow>
             (case forEach n B a ks v m s1 of
                None \<Rightarrow> None
              | Some (s2, es) \<Rightarrow> Some (s2, e # es)))
      else forEach n B a ks v m s)"
  by pat_completeness auto

termination
  by (relation "measures
    [case_sum (case_sum fst (case_sum fst fst)) (case_sum fst (case_sum fst fst)),
     case_sum (case_sum (\<lambda>_. 0) (case_sum (\<lambda>_. 4) (\<lambda>_. 3)))
       (case_sum (\<lambda>_. 1) (case_sum (\<lambda>_. 2) (\<lambda>_. 1))),
     case_sum (case_sum (\<lambda>_. 0) (case_sum (\<lambda>(n, B, cs, s). length cs) (\<lambda>_. 0)))
       (case_sum (\<lambda>_. 0)
          (case_sum (\<lambda>_. 0) (\<lambda>(n, B, a, ks, v, m, s). length ks)))]")
    auto

text \<open>
  The fan-out as the specification words it: the subscriber list is copied when the
  fan-out starts, and the copy is what is iterated.
\<close>

fun notify_snapshot :: "nat \<Rightarrow> bodies \<Rightarrow> updater list \<Rightarrow> jsval \<Rightarrow> number \<Rightarrow> ContextProvider
      \<Rightarrow> (ContextProvider \<times> event list) option" where
  "notify_snapshot n B [] v m s = Some (s, [])"
| "notify_snapshot n B (u # us) v m s =
     (case invoke n B u v m s of
        None \<Rightarrow> None
      | Some (s1, e) \<Rightarrow>
          (case notify_snapshot n B us v m s1 of
             None \<Rightarrow> None
           | Some (s2, es) \<Rightarrow> Some (s2, e # es)))"

text \<open>
  How a store can differ from an earlier one: arrays are added to the heap, and an array
  that was there has only been added to at its end.
\<close>

definition grows :: "ContextProvider \<Rightarrow> ContextProvider \<Rightarrow> bool" where
  "grows s s' =
     (length (heap s) \<le> length (heap s')
      \<and> (\<forall>a < length (heap s). prefix (heap s ! a) (heap s' ! a))
      \<and> (well_formed s \<longrightarrow> well_formed s'))"

text \<open>Every updater that was called in the course of an event, at any depth.\<close>

fun called :: "event \<Rightarrow> updater set" where
  "called (Invoked u v m es) = insert u (\<Union> (called ` set es))"

section \<open>noopContext\<close>

text \<open>
  The provider a \<open>Consumer\<close> falls back to when none is in its context. It has no state
  of its own; what its methods can change is the console, the list of messages
  \<open>console.warn\<close> has printed. Each method returns the new console and its JavaScript
  return value.
\<close>

type_synonym console = "string list"

definition warn_no_provider :: string where
  "warn_no_provider = ''Consumer used without a Provider''"

definition warn_both :: string where
  "warn_both = ''Both children and a render function are defined. Children will be used''"

definition warn_no_function :: string where
  "warn_no_function =
     ''Consumer is expecting a function as one and only child but didn't find any''"

definition noop_value :: jsval where
  "noop_value = Undefined"

definition noop_register :: "updater \<Rightarrow> console \<Rightarrow> console \<times> jsval" where
  "noop_register u out = (out @ [warn_no_provider], Undefined)"

definition noop_unregister :: "updater \<Rightarrow> console \<Rightarrow> console \<times> jsval" where
  "noop_unregister u out = (out, Undefined)"

definition noop_setValue :: "jsval \<Rightarrow> BitmaskFactory \<Rightarrow> console \<Rightarrow> console \<times> jsval" where
  "noop_setValue v bitmaskFactory out = (out, Undefined)"

definition defaultBitmaskFactory :: BitmaskFactory where
  "defaultBitmaskFactory a b = MAX_SIGNED_31_BIT_INT"

section \<open>Provider\<close>

text \<open>
  \<open>h(nodeName, attributes, children)\<close> is preact's function that makes a virtual node. It
  is imported, not written here, so \<open>render\<close> takes it as the parameter \<open>h\<close>, and the type
  of the nodes it makes is left open. \<open>render\<close> returns either the node \<open>h\<close> made for it or
  a value it was given.
\<close>

datatype 'n rendered = Created 'n | Given jsval

text \<open>\<open>Provider.render\<close>; \<open>props.children\<close> is an array or is missing.\<close>

definition Provider_render ::
  "(string \<Rightarrow> jsval \<Rightarrow> jsval list \<Rightarrow> 'n) \<Rightarrow> jsval list option \<Rightarrow> 'n rendered" where
  "Provider_render h cs =
     (case cs of
        None \<Rightarrow> Given (js_or (first_child None) Null)
      | Some xs \<Rightarrow>
          if 1 < length xs then Created (h ''span'' Null xs)
          else Given (js_or (first_child (Some xs)) Null))"

section \<open>Consumer\<close>

text \<open>\<open>unstable_observedBits\<close> is a number, or is \<open>undefined\<close> or \<open>null\<close>.\<close>

datatype observedBits = Bits_undefined | Bits_null | Bits number

record ConsumerProps =
  children :: "jsval list option"
  render :: jsval
  unstable_observedBits :: observedBits

record ConsumerState =
  state_value :: jsval

definition getRenderer :: "ConsumerProps \<Rightarrow> jsval" where
  "getRenderer props = js_or (first_child (children props)) (render props)"

text \<open>
  \<open>this.getContextProvider().value\<close>: the context holds the provider under the key, or
  nothing, and then \<open>noopContext\<close> stands in.
\<close>

definition getContextProvider_value :: "ContextProvider option \<Rightarrow> jsval" where
  "getContextProvider_value ctx =
     (case ctx of None \<Rightarrow> noop_value | Some p \<Rightarrow> cur_value p)"

text \<open>The constructor; \<open>defaultValue\<close> is the \<open>value\<close> given to \<open>createContext\<close>.\<close>

definition Consumer_constructor :: "jsval \<Rightarrow> ContextProvider option \<Rightarrow> ConsumerState" where
  "Consumer_constructor defaultValue ctx =
     \<lparr>state_value = js_or (getContextProvider_value ctx) defaultValue\<rparr>"

text \<open>
  \<open>Consumer.render\<close>. \<open>app f x\<close> is what calling the function object \<open>f\<close> on \<open>x\<close> gives;
  the return value \<open>None\<close> is \<open>undefined\<close>.
\<close>

definition Consumer_render ::
  "(nat \<Rightarrow> jsval \<Rightarrow> 'r) \<Rightarrow> jsval \<Rightarrow> ConsumerProps \<Rightarrow> ConsumerState \<Rightarrow> console
     \<Rightarrow> console \<times> 'r option" where
  "Consumer_render app defaultValue props state out =
     (let r = getRenderer props;
          out1 = (if truthy (render props) \<and> \<not> strict_eq (render props) r
                  then out @ [warn_both] else out)
      in case r of
           Fun f \<Rightarrow> (out1, Some (app f (js_or (state_value state) defaultValue)))
         | _ \<Rightarrow> (out1 @ [warn_no_function], None))"

text \<open>\<open>Consumer.updateContext\<close>; \<open>setState({ value })\<close> replaces the value in the state.\<close>

definition updateContext :: "ConsumerProps \<Rightarrow> jsval \<Rightarrow> number \<Rightarrow> ConsumerState \<Rightarrow> ConsumerState" where
  "updateContext props v bitmask state =
     (let observed =
            bit_or (case unstable_observedBits props of
                      Bits_undefined \<Rightarrow> MAX_SIGNED_31_BIT_INT
                    | Bits_null \<Rightarrow> MAX_SIGNED_31_BIT_INT
                    | Bits b \<Rightarrow> b) (Fin 0)
      in if bit_and observed bitmask = Fin 0 then state else state\<lparr>state_value := v\<rparr>)"

section \<open>Numbers and the integer coercion\<close>

lemma js_truncate_of_int: "js_truncate (of_int i) = i"
  by (simp add: js_truncate_def)

lemma js_truncate_signed: "js_truncate (signed w) = sint w"
  by (metis js_truncate_of_int of_int_sint)

lemma toInt32_int32: "toInt32 (int32 w) = w"
  by (simp add: int32_def js_truncate_signed)

lemma int32_eq_0: "int32 w = Fin 0 \<longleftrightarrow> w = 0"
  by (simp add: int32_def signed_eq_0_iff)

lemma bit_or_0: "bit_or x (Fin 0) = int32 (toInt32 x)"
  by (simp add: bit_or_def js_truncate_def)

lemma bit_and_0_iff: "bit_and a b = Fin 0 \<longleftrightarrow> toInt32 a AND toInt32 b = 0"
  by (simp add: bit_and_def int32_eq_0)

lemma toInt32_MAX: "toInt32 MAX_SIGNED_31_BIT_INT = 1073741823"
  by (simp add: MAX_SIGNED_31_BIT_INT_def js_truncate_def)

text \<open>A 32-bit result is an integer from \<open>- (2 ^ 31)\<close> to \<open>2 ^ 31 - 1\<close>.\<close>

lemma int32_range:
  "\<exists>i. int32 w = Fin (of_int i) \<and> - 2147483648 \<le> i \<and> i \<le> 2147483647"
proof -
  have "- 2147483648 \<le> sint w" using sint_ge[of w] by simp
  moreover have "sint w \<le> 2147483647" using sint_lt[of w] by simp
  ultimately show ?thesis unfolding int32_def by blast
qed

text \<open>A positive integer up to \<open>2 ^ 30 - 1\<close> has one of its low 30 bits set.\<close>

lemma low30:
  assumes a: "0 < i" "i \<le> 1073741823"
  shows "(1073741823 :: 32 word) AND word_of_int i \<noteq> 0"
proof -
  have m: "(1073741823 :: 32 word) = mask 30" by (simp add: mask_eq_exp_minus_1)
  have t: "take_bit 30 i = i" using a by (simp add: take_bit_int_eq_self)
  have "word_of_int i AND (mask 30 :: 32 word) = word_of_int i"
    by (simp add: and_mask_wi t)
  moreover have "(word_of_int i :: 32 word) \<noteq> 0"
    using a zdvd_imp_le[of 4294967296 i]
    by (auto simp add: word_of_int_eq_0_iff take_bit_int_eq_self)
  ultimately show ?thesis by (simp add: m and.commute)
qed

section \<open>The update filter of a Consumer\<close>

lemma updateContext_eq:
  "updateContext props v m st =
     (if toInt32 (case unstable_observedBits props of
                    Bits_undefined \<Rightarrow> MAX_SIGNED_31_BIT_INT
                  | Bits_null \<Rightarrow> MAX_SIGNED_31_BIT_INT
                  | Bits b \<Rightarrow> b) AND toInt32 m = 0
      then st else st\<lparr>state_value := v\<rparr>)"
  by (simp add: updateContext_def Let_def bit_and_0_iff bit_or_0 toInt32_int32)

lemma updateContext_default:
  assumes "\<forall>b. unstable_observedBits props \<noteq> Bits b"
  shows "updateContext props v m st =
     (if 1073741823 AND toInt32 m = 0 then st else st\<lparr>state_value := v\<rparr>)"
  using assms
  by (cases "unstable_observedBits props") (simp_all add: updateContext_eq toInt32_MAX)

text \<open>
  Claim C3, as stated, fails: a Consumer with no \<open>unstable_observedBits\<close> does not accept
  every descriptor other than 0. Its mask is \<open>MAX_SIGNED_31_BIT_INT\<close>, the low 30 bits, and
  a descriptor whose set bits all lie above them is dropped: \<open>2 ^ 30\<close>, which \<open>setValue\<close>
  passes on unchanged, and \<open>- (2 ^ 30)\<close>, which is a signed 31-bit integer. The state
  stays at 1 where the claim has it become 2.
\<close>

theorem updateContext_default_mask_counterexample:
  "Fin 1073741824 \<noteq> Fin 0 \<and> Fin (- 1073741824) \<noteq> Fin 0
   \<and> signed_31_bit (Fin (- 1073741824))
   \<and> updateContext
        \<lparr>children = None, render = Undefined, unstable_observedBits = Bits_undefined\<rparr>
        (Num (Fin 2)) (Fin 1073741824) \<lparr>state_value = Num (Fin 1)\<rparr>
      = \<lparr>state_value = Num (Fin 1)\<rparr>
   \<and> updateContext
        \<lparr>children = None, render = Undefined, unstable_observedBits = Bits_undefined\<rparr>
        (Num (Fin 2)) (Fin (- 1073741824)) \<lparr>state_value = Num (Fin 1)\<rparr>
      = \<lparr>state_value = Num (Fin 1)\<rparr>"
proof -
  have "signed_31_bit (Fin (- 1073741824))"
    unfolding signed_31_bit_def by (rule bexI[of _ "- 1073741824"]) simp_all
  then show ?thesis
    by (simp add: updateContext_def Let_def bit_and_def bit_or_def int32_def js_truncate_def
        MAX_SIGNED_31_BIT_INT_def)
qed

text \<open>
  Claim C3, amended. Let \<open>observed\<close> be \<open>unstable_observedBits\<close> if it is a number and
  \<open>MAX_SIGNED_31_BIT_INT\<close> if it is \<open>undefined\<close> or \<open>null\<close>, coerced to a signed 32-bit
  integer as the descriptor is. \<open>updateContext\<close> leaves the state as it is when
  \<open>observed & descriptor\<close> is 0 and puts the new value into it otherwise. A Consumer whose
  mask is 0 is never updated, whatever the descriptor (the descriptor 0 of the call made
  by \<open>register\<close> included). A Consumer with no mask accepts exactly the descriptors that
  have one of their low 30 bits set, among them every integer from 1 to
  \<open>MAX_SIGNED_31_BIT_INT\<close>.
\<close>

theorem updateContext_filter:
  "updateContext props v m st =
     (if toInt32 (case unstable_observedBits props of
                    Bits_undefined \<Rightarrow> MAX_SIGNED_31_BIT_INT
                  | Bits_null \<Rightarrow> MAX_SIGNED_31_BIT_INT
                  | Bits b \<Rightarrow> b) AND toInt32 m = 0
      then st else st\<lparr>state_value := v\<rparr>)
   \<and> (unstable_observedBits props = Bits (Fin 0) \<longrightarrow> updateContext props v m st = st)
   \<and> ((\<forall>b. unstable_observedBits props \<noteq> Bits b) \<longrightarrow>
        updateContext props v m st =
          (if toInt32 m AND 1073741823 = 0 then st else st\<lparr>state_value := v\<rparr>))
   \<and> ((\<forall>b. unstable_observedBits props \<noteq> Bits b) \<and> 0 < i \<and> i \<le> 1073741823 \<longrightarrow>
        updateContext props v (Fin (of_int i)) st = st\<lparr>state_value := v\<rparr>)"
proof (intro conjI impI)
  show "updateContext props v m st =
     (if toInt32 (case unstable_observedBits props of
                    Bits_undefined \<Rightarrow> MAX_SIGNED_31_BIT_INT
                  | Bits_null \<Rightarrow> MAX_SIGNED_31_BIT_INT
                  | Bits b \<Rightarrow> b) AND toInt32 m = 0
      then st else st\<lparr>state_value := v\<rparr>)"
    by (rule updateContext_eq)
next
  assume "unstable_observedBits props = Bits (Fin 0)"
  then show "updateContext props v m st = st"
    by (simp add: updateContext_eq js_truncate_def)
next
  assume "\<forall>b. unstable_observedBits props \<noteq> Bits b"
  then show "updateContext props v m st =
      (if toInt32 m AND 1073741823 = 0 then st else st\<lparr>state_value := v\<rparr>)"
    by (simp add: updateContext_default and.commute)
next
  assume h: "(\<forall>b. unstable_observedBits props \<noteq> Bits b) \<and> 0 < i \<and> i \<le> 1073741823"
  then have "(1073741823 :: 32 word) AND word_of_int i \<noteq> 0"
    by (simp add: low30)
  with h show "updateContext props v (Fin (of_int i)) st = st\<lparr>state_value := v\<rparr>"
    by (simp add: updateContext_default js_truncate_of_int)
qed

theorem updateContext_filter_witness:
  "updateContext
      \<lparr>children = None, render = Undefined, unstable_observedBits = Bits (Fin 0)\<rparr>
      (Num (Fin 2)) (Fin 1073741823) \<lparr>state_value = Num (Fin 1)\<rparr>
     = \<lparr>state_value = Num (Fin 1)\<rparr>
   \<and> updateContext
      \<lparr>children = None, render = Undefined, unstable_observedBits = Bits_undefined\<rparr>
      (Num (Fin 2)) (Fin 4) \<lparr>state_value = Num (Fin 1)\<rparr>
     = \<lparr>state_value = Num (Fin 2)\<rparr>
   \<and> updateContext
      \<lparr>children = None, render = Undefined, unstable_observedBits = Bits_null\<rparr>
      (Num (Fin 2)) (Fin (of_int 5)) \<lparr>state_value = Num (Fin 1)\<rparr>
     = \<lparr>state_value = Num (Fin 2)\<rparr>"
  using updateContext_filter [of
          "\<lparr>children = None, render = Undefined, unstable_observedBits = Bits (Fin 0)\<rparr>"
          "Num (Fin 2)" "Fin 1073741823" "\<lparr>state_value = Num (Fin 1)\<rparr>" 1]
        updateContext_filter [of
          "\<lparr>children = None, render = Undefined, unstable_observedBits = Bits_undefined\<rparr>"
          "Num (Fin 2)" "Fin 4" "\<lparr>state_value = Num (Fin 1)\<rparr>" 1]
        updateContext_filter [of
          "\<lparr>children = None, render = Undefined, unstable_observedBits = Bits_null\<rparr>"
          "Num (Fin 2)" "Fin 4" "\<lparr>state_value = Num (Fin 1)\<rparr>" 5]
  by (simp add: js_truncate_def MAX_SIGNED_31_BIT_INT_def)

section \<open>What Provider renders\<close>

text \<open>
  Claim C8, as stated, fails: a single child is not always passed through. \<open>render\<close>
  returns \<open>result || null\<close>, so a single child that is falsy is replaced by \<open>null\<close>: the
  number 0 as the only child is rendered as nothing.
\<close>

theorem Provider_render_falsy_child_counterexample:
  "Provider_render (\<lambda>nodeName attributes cs. (nodeName, attributes, cs)) (Some [Num (Fin 0)])
     = Given Null
   \<and> Provider_render (\<lambda>nodeName attributes cs. (nodeName, attributes, cs)) (Some [Num (Fin 0)])
     \<noteq> Given (Num (Fin 0))"
  by (simp add: Provider_render_def js_or_def)

text \<open>
  Claim C8, amended. With more than one child, \<open>render\<close> returns what
  \<open>h("span", null, children)\<close> returns, the one \<open>span\<close> node preact makes of all the
  children; with exactly one child that is truthy (a node, a text that is not empty, a
  number other than 0) it returns that child as it is; with exactly one child that is
  falsy, and with no children (an empty array, or none), it returns \<open>null\<close>. This holds
  whatever \<open>h\<close> is.
\<close>

theorem Provider_render_children:
  "(1 < length xs \<longrightarrow> Provider_render h (Some xs) = Created (h ''span'' Null xs))
   \<and> (truthy c \<longrightarrow> Provider_render h (Some [c]) = Given c)
   \<and> (\<not> truthy c \<longrightarrow> Provider_render h (Some [c]) = Given Null)
   \<and> Provider_render h (Some []) = Given Null
   \<and> Provider_render h None = Given Null"
  by (simp add: Provider_render_def js_or_def)

text \<open>
  In the witness \<open>h\<close> is a function that only records the arguments it was called with.
\<close>

theorem Provider_render_children_witness:
  "Provider_render (\<lambda>nodeName attributes cs. (nodeName, attributes, cs))
      (Some [Obj 1, Str ''a''])
     = Created (''span'', Null, [Obj 1, Str ''a''])
   \<and> Provider_render (\<lambda>nodeName attributes cs. (nodeName, attributes, cs)) (Some [Obj 1])
     = Given (Obj 1)
   \<and> Provider_render (\<lambda>nodeName attributes cs. (nodeName, attributes, cs)) (Some [Str []])
     = Given Null"
  using Provider_render_children [of "[Obj 1, Str ''a'']"
          "\<lambda>nodeName attributes cs. (nodeName, attributes, cs)" "Obj 1"]
        Provider_render_children [of "[Obj 1, Str ''a'']"
          "\<lambda>nodeName attributes cs. (nodeName, attributes, cs)" "Str []"]
  by simp

section \<open>What Consumer renders\<close>

lemma getRenderer_eq:
  "getRenderer props =
     (if truthy (first_child (children props)) then first_child (children props)
      else render props)"
  by (simp add: getRenderer_def js_or_def)

lemma Consumer_render_child:
  assumes "children props = Some (Fun c # cs)"
  shows "Consumer_render app d props st out
          = ((if truthy (render props) \<and> render props \<noteq> Fun c then out @ [warn_both] else out),
             Some (app c (js_or (state_value st) d)))"
  using assms by (simp add: Consumer_render_def getRenderer_eq Let_def strict_eq_def)

text \<open>
  Claim C9, as stated, fails: with a function as the child and a \<open>render\<close> prop, the
  warning is not always printed. The test is \<open>render && render !== r\<close>, so when the child
  and the \<open>render\<close> prop are the same function nothing is printed.
\<close>

theorem Consumer_render_same_function_counterexample:
  "Consumer_render (\<lambda>f x. (f, x)) (Str ''dflt'')
      \<lparr>children = Some [Fun 1], render = Fun 1, unstable_observedBits = Bits_undefined\<rparr>
      \<lparr>state_value = Num (Fin 3)\<rparr> []
     = ([], Some (1, Num (Fin 3)))"
  by (simp add: Consumer_render_def getRenderer_def js_or_def Let_def strict_eq_def)

text \<open>
  Claim C9, amended. The renderer is the first child if there is one and it is truthy,
  and the \<open>render\<close> prop otherwise. With a function as the first child, the child is
  called, and the warning \<open>warn_both\<close> is printed exactly when the \<open>render\<close> prop is truthy
  and is not that same function: it is printed for a different function and for a truthy
  value that is no function, and it is not printed when the \<open>render\<close> prop is the child
  itself or is missing. With no truthy first child and a function as the \<open>render\<close> prop,
  that function is called and nothing is printed. The function is called with
  \<open>state.value || defaultValue\<close> and \<open>render\<close> returns what it returns. When the renderer
  is not a function, \<open>warn_no_function\<close> is printed (after \<open>warn_both\<close>, if the \<open>render\<close>
  prop is truthy and is not the renderer) and \<open>render\<close> returns \<open>undefined\<close>. These cases
  are all the cases, and \<open>render\<close> has no other outcome.
\<close>

theorem Consumer_render_resolves:
  "getRenderer props =
     (if truthy (first_child (children props)) then first_child (children props)
      else render props)
   \<and> (children props = Some (Fun c # cs) \<longrightarrow>
        Consumer_render app d props st out
          = ((if truthy (render props) \<and> render props \<noteq> Fun c then out @ [warn_both] else out),
             Some (app c (js_or (state_value st) d))))
   \<and> (children props = Some (Fun c # cs) \<and> render props = Fun g \<and> g \<noteq> c \<longrightarrow>
        Consumer_render app d props st out
          = (out @ [warn_both], Some (app c (js_or (state_value st) d))))
   \<and> (children props = Some (Fun c # cs) \<and> render props = Fun c \<longrightarrow>
        Consumer_render app d props st out = (out, Some (app c (js_or (state_value st) d))))
   \<and> (children props = Some (Fun c # cs) \<and> truthy (render props)
        \<and> \<not> is_function (render props) \<longrightarrow>
        Consumer_render app d props st out
          = (out @ [warn_both], Some (app c (js_or (state_value st) d))))
   \<and> (children props = Some (Fun c # cs) \<and> \<not> truthy (render props) \<longrightarrow>
        Consumer_render app d props st out = (out, Some (app c (js_or (state_value st) d))))
   \<and> (\<not> truthy (first_child (children props)) \<and> render props = Fun g \<longrightarrow>
        Consumer_render app d props st out = (out, Some (app g (js_or (state_value st) d))))
   \<and> (\<not> is_function (getRenderer props) \<longrightarrow>
        Consumer_render app d props st out
          = ((if truthy (render props) \<and> \<not> strict_eq (render props) (getRenderer props)
              then out @ [warn_both] else out) @ [warn_no_function], None))"
proof (intro conjI impI)
  show "getRenderer props =
     (if truthy (first_child (children props)) then first_child (children props)
      else render props)"
    by (rule getRenderer_eq)
next
  assume "children props = Some (Fun c # cs)"
  then show "Consumer_render app d props st out
          = ((if truthy (render props) \<and> render props \<noteq> Fun c then out @ [warn_both] else out),
             Some (app c (js_or (state_value st) d)))"
    by (rule Consumer_render_child)
next
  assume "children props = Some (Fun c # cs) \<and> render props = Fun g \<and> g \<noteq> c"
  then show "Consumer_render app d props st out
          = (out @ [warn_both], Some (app c (js_or (state_value st) d)))"
    by (simp add: Consumer_render_child)
next
  assume "children props = Some (Fun c # cs) \<and> render props = Fun c"
  then show "Consumer_render app d props st out
          = (out, Some (app c (js_or (state_value st) d)))"
    by (simp add: Consumer_render_child)
next
  assume "children props = Some (Fun c # cs) \<and> truthy (render props)
        \<and> \<not> is_function (render props)"
  then show "Consumer_render app d props st out
          = (out @ [warn_both], Some (app c (js_or (state_value st) d)))"
    by (auto simp add: Consumer_render_child)
next
  assume "children props = Some (Fun c # cs) \<and> \<not> truthy (render props)"
  then show "Consumer_render app d props st out
          = (out, Some (app c (js_or (state_value st) d)))"
    by (simp add: Consumer_render_def getRenderer_eq Let_def)
next
  assume "\<not> truthy (first_child (children props)) \<and> render props = Fun g"
  then show "Consumer_render app d props st out
          = (out, Some (app g (js_or (state_value st) d)))"
    by (simp add: Consumer_render_def getRenderer_eq Let_def strict_eq_def)
next
  assume "\<not> is_function (getRenderer props)"
  then show "Consumer_render app d props st out
          = ((if truthy (render props) \<and> \<not> strict_eq (render props) (getRenderer props)
              then out @ [warn_both] else out) @ [warn_no_function], None)"
    by (cases "getRenderer props") (simp_all add: Consumer_render_def Let_def)
qed

theorem Consumer_render_resolves_witness:
  "Consumer_render (\<lambda>f x. (f, x)) (Str ''dflt'')
      \<lparr>children = Some [Fun 1], render = Fun 2, unstable_observedBits = Bits_undefined\<rparr>
      \<lparr>state_value = Num (Fin 0)\<rparr> []
     = ([warn_both], Some (1, Str ''dflt''))
   \<and> Consumer_render (\<lambda>f x. (f, x)) (Str ''dflt'')
      \<lparr>children = Some [], render = Fun 2, unstable_observedBits = Bits_undefined\<rparr>
      \<lparr>state_value = Num (Fin 3)\<rparr> []
     = ([], Some (2, Num (Fin 3)))
   \<and> Consumer_render (\<lambda>f x. (f, x)) (Str ''dflt'')
      \<lparr>children = Some [Fun 1], render = Undefined, unstable_observedBits = Bits_undefined\<rparr>
      \<lparr>state_value = Num (Fin 3)\<rparr> []
     = ([], Some (1, Num (Fin 3)))
   \<and> Consumer_render (\<lambda>f x. (f, x)) (Str ''dflt'')
      \<lparr>children = Some [Str ''text''], render = Fun 2, unstable_observedBits = Bits_undefined\<rparr>
      \<lparr>state_value = Num (Fin 3)\<rparr> []
     = ([warn_both, warn_no_function], None)
   \<and> Consumer_render (\<lambda>f x. (f, x)) (Str ''dflt'')
      \<lparr>children = Some [Fun 4], render = Fun 4, unstable_observedBits = Bits_undefined\<rparr>
      \<lparr>state_value = Num (Fin 3)\<rparr> []
     = ([], Some (4, Num (Fin 3)))
   \<and> Consumer_render (\<lambda>f x. (f, x)) (Str ''dflt'')
      \<lparr>children = Some [Fun 4], render = Obj 5, unstable_observedBits = Bits_undefined\<rparr>
      \<lparr>state_value = Num (Fin 3)\<rparr> []
     = ([warn_both], Some (4, Num (Fin 3)))"
  using Consumer_render_resolves [of
          "\<lparr>children = Some [Fun 4], render = Fun 4, unstable_observedBits = Bits_undefined\<rparr>"
          4 "[]" "\<lambda>f x. (f, x)" "Str ''dflt''" "\<lparr>state_value = Num (Fin 3)\<rparr>" "[]" 2]
        Consumer_render_resolves [of
          "\<lparr>children = Some [Fun 4], render = Obj 5, unstable_observedBits = Bits_undefined\<rparr>"
          4 "[]" "\<lambda>f x. (f, x)" "Str ''dflt''" "\<lparr>state_value = Num (Fin 3)\<rparr>" "[]" 2]
        Consumer_render_resolves [of
          "\<lparr>children = Some [Fun 1], render = Fun 2, unstable_observedBits = Bits_undefined\<rparr>"
          1 "[]" "\<lambda>f x. (f, x)" "Str ''dflt''" "\<lparr>state_value = Num (Fin 0)\<rparr>" "[]" 2]
        Consumer_render_resolves [of
          "\<lparr>children = Some [], render = Fun 2, unstable_observedBits = Bits_undefined\<rparr>"
          1 "[]" "\<lambda>f x. (f, x)" "Str ''dflt''" "\<lparr>state_value = Num (Fin 3)\<rparr>" "[]" 2]
        Consumer_render_resolves [of
          "\<lparr>children = Some [Fun 1], render = Undefined, unstable_observedBits = Bits_undefined\<rparr>"
          1 "[]" "\<lambda>f x. (f, x)" "Str ''dflt''" "\<lparr>state_value = Num (Fin 3)\<rparr>" "[]" 2]
        Consumer_render_resolves [of
          "\<lparr>children = Some [Str ''text''], render = Fun 2,
             unstable_observedBits = Bits_undefined\<rparr>"
          1 "[]" "\<lambda>f x. (f, x)" "Str ''dflt''" "\<lparr>state_value = Num (Fin 3)\<rparr>" "[]" 2]
  by (simp add: js_or_def strict_eq_def)

text \<open>
  Claim C10. A falsy value is replaced by the default value given to \<open>createContext\<close>:
  the constructor puts the default into the state when the value of the provider in the
  context (or of \<open>noopContext\<close>) is falsy, and \<open>render\<close> calls the renderer with the default
  when the value in the state is falsy.
\<close>

theorem falsy_value_replaced_by_default:
  "(\<not> truthy (getContextProvider_value ctx) \<longrightarrow>
      state_value (Consumer_constructor defaultValue ctx) = defaultValue)
   \<and> (\<not> truthy (state_value st) \<and> getRenderer props = Fun f \<longrightarrow>
      snd (Consumer_render app defaultValue props st out) = Some (app f defaultValue))"
  by (simp add: Consumer_constructor_def Consumer_render_def js_or_def Let_def)

theorem falsy_value_replaced_by_default_witness:
  "state_value (Consumer_constructor (Num (Fin 7)) (Some (new_ContextProvider (Num (Fin 0)))))
     = Num (Fin 7)
   \<and> snd (Consumer_render (\<lambda>f x. x) (Num (Fin 7))
        \<lparr>children = Some [Fun 1], render = Undefined, unstable_observedBits = Bits_undefined\<rparr>
        \<lparr>state_value = Str []\<rparr> []) = Some (Num (Fin 7))"
  using falsy_value_replaced_by_default [of "Some (new_ContextProvider (Num (Fin 0)))"
          "Num (Fin 7)" "\<lparr>state_value = Str []\<rparr>"
          "\<lparr>children = Some [Fun 1], render = Undefined, unstable_observedBits = Bits_undefined\<rparr>"
          1 "\<lambda>f x. x" "[]"]
  by (simp add: getContextProvider_value_def new_ContextProvider_def getRenderer_def js_or_def)

section \<open>The methods of noopContext\<close>

text \<open>
  Claim C5, as stated, fails: \<open>register\<close> of \<open>noopContext\<close> does not return a function. It
  has no \<open>return\<close>, so it returns \<open>undefined\<close>, which cannot be called.
\<close>

theorem noop_register_returns_undefined_counterexample:
  "snd (noop_register 0 []) = Undefined \<and> \<not> is_function (snd (noop_register 0 []))"
  by (simp add: noop_register_def)

text \<open>
  Claim C5, amended. \<open>register\<close> of \<open>noopContext\<close> prints the warning \<open>warn_no_provider\<close> and
  returns \<open>undefined\<close>; \<open>unregister\<close> and \<open>setValue\<close> print nothing, change nothing and return
  \<open>undefined\<close>. This holds for every argument, and the methods have no other outcome.
\<close>

theorem noopContext_methods:
  "noop_register u out = (out @ [warn_no_provider], Undefined)
   \<and> noop_unregister u out = (out, Undefined)
   \<and> noop_setValue v f out = (out, Undefined)"
  by (simp add: noop_register_def noop_unregister_def noop_setValue_def)

section \<open>The subscriber list\<close>

lemma updaters_unregister: "updaters (unregister u s) = filter (\<lambda>i. i \<noteq> u) (updaters s)"
  by (simp add: updaters_def unregister_def)

lemma cur_value_unregister: "cur_value (unregister u s) = cur_value s"
  by (simp add: unregister_def)

lemma well_formed_unregister: "well_formed (unregister u s)"
  by (simp add: well_formed_def unregister_def)

lemma updaters_push: "well_formed s \<Longrightarrow> updaters (push u s) = updaters s @ [u]"
  by (simp add: updaters_def push_def well_formed_def)

lemma cur_value_push: "cur_value (push u s) = cur_value s"
  by (simp add: push_def)

lemma well_formed_push: "well_formed s \<Longrightarrow> well_formed (push u s)"
  by (simp add: well_formed_def push_def)

text \<open>
  Claim C4. \<open>unregister\<close> removes the updater from the subscriber list, comparing by
  identity: the list afterwards is the list before without the entries that are this
  updater, in the same order, and the value is not touched. For an updater that is not in
  the list, the list stays as it is, and a second \<open>unregister\<close> of the same updater changes
  nothing more.
\<close>

theorem unregister_removes:
  "updaters (unregister u s) = filter (\<lambda>i. i \<noteq> u) (updaters s)
   \<and> cur_value (unregister u s) = cur_value s
   \<and> u \<notin> set (updaters (unregister u s))
   \<and> (u \<notin> set (updaters s) \<longrightarrow> updaters (unregister u s) = updaters s)
   \<and> updaters (unregister u (unregister u s)) = updaters (unregister u s)"
  by (auto simp add: updaters_unregister cur_value_unregister filter_id_conv)

theorem unregister_removes_witness:
  "updaters (unregister 3 \<lparr>cur_value = Null, updaters_ref = 0, heap = [[1, 2]]\<rparr>) = [1, 2]
   \<and> updaters (unregister 1 \<lparr>cur_value = Null, updaters_ref = 0, heap = [[1, 2, 1]]\<rparr>) = [2]"
  using unregister_removes [of 3 "\<lparr>cur_value = Null, updaters_ref = 0, heap = [[1, 2]]\<rparr>"]
        unregister_removes [of 1 "\<lparr>cur_value = Null, updaters_ref = 0, heap = [[1, 2, 1]]\<rparr>"]
  by (simp add: updaters_def)

section \<open>The heap only grows\<close>

lemma grows_refl: "grows s s"
  by (simp add: grows_def)

lemma grows_trans: "grows s s1 \<Longrightarrow> grows s1 s2 \<Longrightarrow> grows s s2"
  unfolding grows_def by (meson order_trans less_le_trans prefix_order.order_trans)

lemma grows_push: "grows s (push u s)"
proof (cases "updaters_ref s < length (heap s)")
  case True
  then show ?thesis
    by (auto simp add: grows_def push_def well_formed_def nth_list_update)
next
  case False
  then show ?thesis
    by (simp add: grows_def push_def well_formed_def)
qed

lemma grows_unregister: "grows s (unregister u s)"
  by (auto simp add: grows_def unregister_def well_formed_def nth_append)

lemma grows_cur_value: "grows s (s\<lparr>cur_value := v\<rparr>)"
  by (simp add: grows_def well_formed_def)

lemma grows_all:
  shows "\<And>s' e. invoke n B u v m s = Some (s', e) \<Longrightarrow> grows s s'"
    and "\<And>s' es. run_calls n1 B1 cs s1 = Some (s', es) \<Longrightarrow> grows s1 s'"
    and "\<And>s' es. hub_call n2 B2 c s2 = Some (s', es) \<Longrightarrow> grows s2 s'"
    and "\<And>s' es h. register n3 B3 u3 s3 = Some (s', es, h) \<Longrightarrow> grows s3 s'"
    and "\<And>s' es. setValue n4 B4 v4 f4 s4 = Some (s', es) \<Longrightarrow> grows s4 s'"
    and "\<And>s' es. forEach n5 B5 a ks v5 m5 s5 = Some (s', es) \<Longrightarrow> grows s5 s'"
proof (induct n B u v m s and n1 B1 cs s1 and n2 B2 c s2 and n3 B3 u3 s3 and n4 B4 v4 f4 s4
         and n5 B5 a ks v5 m5 s5
       rule: invoke_run_calls_hub_call_register_setValue_forEach.induct)
  case (1 B u v m s)
  then show ?case by simp
next
  case (2 n B u v m s)
  then show ?case by (auto split: option.splits)
next
  case (3 n B s)
  then show ?case by (simp add: grows_refl)
next
  case (4 n B c cs s)
  from "4.prems" obtain s1 es1 es2
    where h: "hub_call n B c s = Some (s1, es1)" "run_calls n B cs s1 = Some (s', es2)"
    by (auto split: option.splits)
  from "4.hyps"(1)[OF h(1)] "4.hyps"(2)[OF h(1) refl h(2)] show ?case
    by (rule grows_trans)
next
  case (5 n B u s)
  then show ?case by (auto split: option.splits)
next
  case (6 n B u s)
  then show ?case by (auto simp add: grows_unregister)
next
  case (7 n B v f s)
  then show ?case by simp
next
  case (8 n B u s)
  then show ?case by (auto split: option.splits intro: grows_trans grows_push)
next
  case (9 n B newValue bitmaskFactory s)
  then show ?case
    by (auto simp add: Let_def grows_refl split: if_splits intro: grows_trans[OF grows_cur_value])
next
  case (10 n B a v m s)
  then show ?case by (simp add: grows_refl)
next
  case (11 n B a k ks v m s)
  show ?case
  proof (cases "k < length (heap s ! a)")
    case True
    with "11.prems" obtain s1 e es1
      where h: "invoke n B (heap s ! a ! k) v m s = Some (s1, e)"
        "forEach n B a ks v m s1 = Some (s', es1)"
      by (auto split: option.splits)
    from "11.hyps"(1)[OF True h(1)] "11.hyps"(2)[OF True h(1) refl h(2)] show ?thesis
      by (rule grows_trans)
  next
    case False
    with "11.prems" "11.hyps"(3) show ?thesis by simp
  qed
qed

lemma grows_nth:
  assumes "grows s s'" "a < length (heap s)" "k < length (heap s ! a)"
  shows "a < length (heap s')" "k < length (heap s' ! a)" "heap s' ! a ! k = heap s ! a ! k"
proof -
  from assms(1,2) have p: "prefix (heap s ! a) (heap s' ! a)" and l: "length (heap s) \<le> length (heap s')"
    by (simp_all add: grows_def)
  from l assms(2) show "a < length (heap s')" by simp
  from p assms(3) show "k < length (heap s' ! a)"
    using prefix_length_le by fastforce
  from p assms(3) show "heap s' ! a ! k = heap s ! a ! k"
    by (auto simp add: prefix_def nth_append)
qed

section \<open>The fan-out and the snapshot\<close>

text \<open>
  While \<open>forEach\<close> runs, the array it walks may be added to and \<open>_updaters\<close> may be pointed
  elsewhere, but the entries below the length read at the start stay what they were. So
  walking the array by index is walking a copy made at the start.
\<close>

lemma forEach_snapshot:
  assumes "a < length (heap s)" "\<forall>k \<in> set ks. k < length (heap s ! a)"
  shows "forEach n B a ks v m s = notify_snapshot n B (map (\<lambda>k. heap s ! a ! k) ks) v m s"
  using assms
proof (induction ks arbitrary: s)
  case Nil
  then show ?case by simp
next
  case (Cons k ks)
  then have k: "k < length (heap s ! a)" by simp
  show ?case
  proof (cases "invoke n B (heap s ! a ! k) v m s")
    case None
    with k show ?thesis by simp
  next
    case (Some r)
    obtain s1 e where r: "r = (s1, e)" by (cases r)
    from Some r have g: "grows s s1" by (simp add: grows_all(1))
    have a1: "a < length (heap s1)" using grows_nth(1)[OF g Cons.prems(1) k] .
    have ks1: "\<forall>j \<in> set ks. j < length (heap s1 ! a)"
      using Cons.prems(2) grows_nth(2)[OF g Cons.prems(1)] by simp
    have eq: "map (\<lambda>j. heap s1 ! a ! j) ks = map (\<lambda>j. heap s ! a ! j) ks"
      using Cons.prems(2) grows_nth(3)[OF g Cons.prems(1)] by simp
    from Cons.IH[OF a1 ks1] eq Some r k show ?thesis by simp
  qed
qed

lemma setValue_snapshot:
  assumes "well_formed s"
  shows "setValue n B v f s =
     (if strict_eq v (cur_value s) then Some (s, [])
      else notify_snapshot n B (updaters s) v (bit_or (f (cur_value s) v) (Fin 0))
             (s\<lparr>cur_value := v\<rparr>))"
proof -
  let ?s1 = "s\<lparr>cur_value := v\<rparr>"
  let ?a = "updaters_ref s"
  have "forEach n B ?a [0 ..< length (heap ?s1 ! ?a)] v (bit_or (f (cur_value s) v) (Fin 0)) ?s1
      = notify_snapshot n B (map (\<lambda>k. heap ?s1 ! ?a ! k) [0 ..< length (heap ?s1 ! ?a)]) v
          (bit_or (f (cur_value s) v) (Fin 0)) ?s1"
    using assms by (intro forEach_snapshot) (simp_all add: well_formed_def)
  then show ?thesis
    by (simp add: Let_def updaters_def map_nth)
qed

lemma invoke_call_of: "invoke n B u v m s = Some (s', e) \<Longrightarrow> call_of e = (u, v, m)"
  by (cases n) (auto split: option.splits)

lemma notify_snapshot_calls:
  "notify_snapshot n B us v m s = Some (s', es) \<Longrightarrow> map call_of es = map (\<lambda>u. (u, v, m)) us"
  by (induction us arbitrary: s es) (auto split: option.splits simp add: invoke_call_of)

lemma notify_snapshot_returns:
  assumes "\<forall>u s1. invoke n B u v m s1 \<noteq> None"
  shows "notify_snapshot n B us v m s \<noteq> None"
  using assms
proof (induction us arbitrary: s)
  case Nil
  then show ?case by simp
next
  case (Cons u us)
  from Cons.prems obtain s1 e where i: "invoke n B u v m s = Some (s1, e)" by fastforce
  from Cons.IH[OF Cons.prems] obtain r where "notify_snapshot n B us v m s1 = Some r"
    by fastforce
  with i show ?case by (cases r) simp
qed

lemma invoke_inert:
  assumes "\<forall>u v m. B u v m = []"
  shows "invoke (Suc n) B u v m s = Some (s, Invoked u v m [])"
  using assms by simp

lemma notify_snapshot_inert:
  assumes "\<forall>u v m. B u v m = []"
  shows "notify_snapshot (Suc n) B us v m s = Some (s, map (\<lambda>u. Invoked u v m []) us)"
  using assms by (induction us) simp_all

text \<open>Updaters that make no calls, and updaters that only call \<open>unregister\<close>.\<close>

lemma run_calls_unregisters:
  assumes "\<forall>c \<in> set cs. \<exists>x. c = Unregister x"
  shows "\<exists>s'. run_calls n B cs s = Some (s', [])
           \<and> updaters s' = filter (\<lambda>i. Unregister i \<notin> set cs) (updaters s)
           \<and> cur_value s' = cur_value s \<and> (well_formed s \<longrightarrow> well_formed s')"
  using assms
proof (induction cs arbitrary: s)
  case Nil
  then show ?case by simp
next
  case (Cons c cs)
  then obtain x where c: "c = Unregister x" by auto
  from Cons.prems have "\<forall>c \<in> set cs. \<exists>x. c = Unregister x" by simp
  from Cons.IH[OF this, of "unregister x s"] obtain s'
    where h: "run_calls n B cs (unregister x s) = Some (s', [])"
      "updaters s' = filter (\<lambda>i. Unregister i \<notin> set cs) (updaters (unregister x s))"
      "cur_value s' = cur_value (unregister x s)" "well_formed s'"
    by (auto simp add: well_formed_unregister)
  from h c show ?case
    by (auto simp add: updaters_unregister cur_value_unregister intro: filter_cong)
qed

lemma invoke_unregisters:
  assumes "\<forall>u v m. \<forall>c \<in> set (B u v m). \<exists>x. c = Unregister x"
  shows "\<exists>s'. invoke (Suc n) B u v m s = Some (s', Invoked u v m [])
           \<and> updaters s' = filter (\<lambda>i. Unregister i \<notin> set (B u v m)) (updaters s)
           \<and> cur_value s' = cur_value s \<and> (well_formed s \<longrightarrow> well_formed s')"
proof -
  from assms have "\<forall>c \<in> set (B u v m). \<exists>x. c = Unregister x" by blast
  from run_calls_unregisters[OF this, of n B s] show ?thesis by auto
qed

lemma notify_snapshot_unregisters:
  assumes "\<forall>u v m. \<forall>c \<in> set (B u v m). \<exists>x. c = Unregister x"
  shows "\<exists>s'. notify_snapshot (Suc n) B us v m s = Some (s', map (\<lambda>u. Invoked u v m []) us)
           \<and> updaters s' = filter (\<lambda>i. \<forall>u \<in> set us. Unregister i \<notin> set (B u v m)) (updaters s)
           \<and> cur_value s' = cur_value s \<and> (well_formed s \<longrightarrow> well_formed s')"
proof (induction us arbitrary: s)
  case Nil
  then show ?case by simp
next
  case (Cons u us)
  from invoke_unregisters[OF assms, of n u v m s] obtain s1
    where i: "invoke (Suc n) B u v m s = Some (s1, Invoked u v m [])"
      "updaters s1 = filter (\<lambda>i. Unregister i \<notin> set (B u v m)) (updaters s)"
      "cur_value s1 = cur_value s" "well_formed s \<longrightarrow> well_formed s1"
    by blast
  from Cons.IH[of s1] obtain s2
    where j: "notify_snapshot (Suc n) B us v m s1 = Some (s2, map (\<lambda>u. Invoked u v m []) us)"
      "updaters s2 = filter (\<lambda>i. \<forall>u \<in> set us. Unregister i \<notin> set (B u v m)) (updaters s1)"
      "cur_value s2 = cur_value s1" "well_formed s1 \<longrightarrow> well_formed s2"
    by blast
  have "notify_snapshot (Suc n) B (u # us) v m s
          = Some (s2, map (\<lambda>u. Invoked u v m []) (u # us))"
    using i(1) j(1) by simp
  moreover have "updaters s2
      = filter (\<lambda>i. \<forall>w \<in> set (u # us). Unregister i \<notin> set (B w v m)) (updaters s)"
    using i(2) j(2) by (auto intro: filter_cong)
  ultimately show ?case using i(3,4) j(3,4) by auto
qed

section \<open>setValue and register\<close>

lemma well_formed_new: "well_formed (new_ContextProvider v)"
  by (simp add: well_formed_def new_ContextProvider_def)

lemma setValue_same: "strict_eq v (cur_value s) \<Longrightarrow> setValue n B v f s = Some (s, [])"
  by simp

lemma setValue_calls:
  assumes "well_formed s" "\<not> strict_eq v (cur_value s)" "setValue n B v f s = Some (s', es)"
  shows "map call_of es = map (\<lambda>u. (u, v, bit_or (f (cur_value s) v) (Fin 0))) (updaters s)"
proof -
  from assms have "notify_snapshot n B (updaters s) v (bit_or (f (cur_value s) v) (Fin 0))
      (s\<lparr>cur_value := v\<rparr>) = Some (s', es)"
    by (simp add: setValue_snapshot del: setValue.simps)
  then show ?thesis by (rule notify_snapshot_calls)
qed

lemma setValue_inert:
  assumes "well_formed s" "\<not> strict_eq v (cur_value s)" "\<forall>u w m. B u w m = []"
  shows "setValue (Suc n) B v f s
           = Some (s\<lparr>cur_value := v\<rparr>,
                   map (\<lambda>u. Invoked u v (bit_or (f (cur_value s) v) (Fin 0)) []) (updaters s))"
  using assms by (simp add: setValue_snapshot notify_snapshot_inert del: setValue.simps)

text \<open>
  Claim C1, amended. When \<open>newValue === this.value\<close>, \<open>setValue\<close> changes nothing and calls no
  updater. Otherwise the descriptor is \<open>bitmaskFactory(oldValue, newValue)\<close> coerced to a
  signed 32-bit integer (\<open>| 0\<close>), an integer from \<open>- (2 ^ 31)\<close> to \<open>2 ^ 31 - 1\<close>; the
  new value is stored; and then the entries of the subscriber list as it was at the call
  are called, in that order, one call per entry, each with the new value and the
  descriptor, whatever the updaters do when they are called. For updaters that make no
  calls of their own, \<open>setValue\<close> returns, the store is the old one with the new value,
  and these are all the calls.
\<close>

theorem setValue_notifies:
  assumes "well_formed s"
  shows "(strict_eq v (cur_value s) \<longrightarrow> setValue n B v f s = Some (s, []))
    \<and> (\<not> strict_eq v (cur_value s) \<longrightarrow>
         bit_or (f (cur_value s) v) (Fin 0) = int32 (toInt32 (f (cur_value s) v))
         \<and> (\<exists>i. bit_or (f (cur_value s) v) (Fin 0) = Fin (of_int i)
                \<and> - 2147483648 \<le> i \<and> i \<le> 2147483647)
         \<and> setValue n B v f s
               = notify_snapshot n B (updaters s) v (bit_or (f (cur_value s) v) (Fin 0))
                   (s\<lparr>cur_value := v\<rparr>)
         \<and> (\<forall>s' es. setValue n B v f s = Some (s', es) \<longrightarrow>
               map call_of es
                 = map (\<lambda>u. (u, v, bit_or (f (cur_value s) v) (Fin 0))) (updaters s))
         \<and> ((\<forall>u w m. B u w m = []) \<longrightarrow>
               setValue (Suc n) B v f s
                 = Some (s\<lparr>cur_value := v\<rparr>,
                         map (\<lambda>u. Invoked u v (bit_or (f (cur_value s) v) (Fin 0)) [])
                           (updaters s))))"
proof (intro conjI impI allI)
  assume "strict_eq v (cur_value s)"
  then show "setValue n B v f s = Some (s, [])" by (rule setValue_same)
next
  show "bit_or (f (cur_value s) v) (Fin 0) = int32 (toInt32 (f (cur_value s) v))"
    by (rule bit_or_0)
next
  show "\<exists>i. bit_or (f (cur_value s) v) (Fin 0) = Fin (of_int i)
          \<and> - 2147483648 \<le> i \<and> i \<le> 2147483647"
    unfolding bit_or_0 by (rule int32_range)
next
  assume "\<not> strict_eq v (cur_value s)"
  with assms show "setValue n B v f s
      = notify_snapshot n B (updaters s) v (bit_or (f (cur_value s) v) (Fin 0))
          (s\<lparr>cur_value := v\<rparr>)"
    by (simp add: setValue_snapshot del: setValue.simps)
next
  fix s' es
  assume "\<not> strict_eq v (cur_value s)" "setValue n B v f s = Some (s', es)"
  with assms show "map call_of es
      = map (\<lambda>u. (u, v, bit_or (f (cur_value s) v) (Fin 0))) (updaters s)"
    by (rule setValue_calls)
next
  assume "\<not> strict_eq v (cur_value s)" "\<forall>u w m. B u w m = []"
  with assms show "setValue (Suc n) B v f s
      = Some (s\<lparr>cur_value := v\<rparr>,
              map (\<lambda>u. Invoked u v (bit_or (f (cur_value s) v) (Fin 0)) []) (updaters s))"
    by (rule setValue_inert)
qed

theorem setValue_notifies_witness:
  "setValue 1 (\<lambda>u w m. []) (Num (Fin 5)) defaultBitmaskFactory
      \<lparr>cur_value = Num (Fin 5), updaters_ref = 0, heap = [[7, 8]]\<rparr>
     = Some (\<lparr>cur_value = Num (Fin 5), updaters_ref = 0, heap = [[7, 8]]\<rparr>, [])
   \<and> setValue 1 (\<lambda>u w m. []) (Num (Fin 5)) defaultBitmaskFactory
      \<lparr>cur_value = Num (Fin 0), updaters_ref = 0, heap = [[7, 8]]\<rparr>
     = Some (\<lparr>cur_value = Num (Fin 5), updaters_ref = 0, heap = [[7, 8]]\<rparr>,
             [Invoked 7 (Num (Fin 5)) (Fin 1073741823) [],
              Invoked 8 (Num (Fin 5)) (Fin 1073741823) []])"
  using setValue_notifies [of "\<lparr>cur_value = Num (Fin 5), updaters_ref = 0, heap = [[7, 8]]\<rparr>"
          "Num (Fin 5)" 0 "\<lambda>u w m. []" defaultBitmaskFactory]
        setValue_notifies [of "\<lparr>cur_value = Num (Fin 0), updaters_ref = 0, heap = [[7, 8]]\<rparr>"
          "Num (Fin 5)" 0 "\<lambda>u w m. []" defaultBitmaskFactory]
  by (simp add: well_formed_def strict_eq_def updaters_def defaultBitmaskFactory_def bit_or_def
      int32_def js_truncate_def MAX_SIGNED_31_BIT_INT_def)

text \<open>
  Claim C1, as stated, fails: the descriptor is not brought into the signed 31-bit
  integers. \<open>diff |= 0\<close> is the 32-bit coercion, so when the factory returns \<open>2 ^ 30\<close>,
  which is above \<open>MAX_SIGNED_31_BIT_INT\<close>, the updaters are called with \<open>2 ^ 30\<close>.
\<close>

theorem setValue_descriptor_counterexample:
  "setValue 1 (\<lambda>u w m. []) (Num (Fin 1)) (\<lambda>a b. Fin 1073741824)
      \<lparr>cur_value = Num (Fin 0), updaters_ref = 0, heap = [[7]]\<rparr>
     = Some (\<lparr>cur_value = Num (Fin 1), updaters_ref = 0, heap = [[7]]\<rparr>,
             [Invoked 7 (Num (Fin 1)) (Fin 1073741824) []])
   \<and> \<not> signed_31_bit (Fin 1073741824)"
proof -
  have "\<not> signed_31_bit (Fin 1073741824)"
    unfolding signed_31_bit_def by auto
  moreover have "well_formed \<lparr>cur_value = Num (Fin 0), updaters_ref = 0, heap = [[7]]\<rparr>"
    by (simp add: well_formed_def)
  ultimately show ?thesis
    by (simp add: setValue_snapshot strict_eq_def updaters_def bit_or_def
        int32_def js_truncate_def del: setValue.simps)
qed

lemma register_eq:
  "register n B u s =
     (case invoke n B u (cur_value s) (Fin 0) (push u s) of
        None \<Rightarrow> None
      | Some (s', e) \<Rightarrow> Some (s', [e], Unsubscribe u))"
  by (simp add: cur_value_push)

text \<open>
  Claim C2. \<open>register\<close> adds the updater at the end of the subscriber list, then calls it
  once, with the current value and 0, and returns a function that, when called, takes
  the updater out of the list. Whatever the updater does when called, the one call
  \<open>register\<close> itself makes is this one; for an updater that makes no calls of its own,
  \<open>register\<close> returns and the store is the old one with the updater added.
\<close>

theorem register_appends_and_syncs:
  assumes "well_formed s"
  shows "updaters (push u s) = updaters s @ [u]
    \<and> cur_value (push u s) = cur_value s
    \<and> register n B u s =
        (case invoke n B u (cur_value s) (Fin 0) (push u s) of
           None \<Rightarrow> None
         | Some (s', e) \<Rightarrow> Some (s', [e], Unsubscribe u))
    \<and> (\<forall>s' es h. register n B u s = Some (s', es, h) \<longrightarrow>
          map call_of es = [(u, cur_value s, Fin 0)] \<and> h = Unsubscribe u
          \<and> updaters (call_handle h s') = filter (\<lambda>i. i \<noteq> u) (updaters s')
          \<and> u \<notin> set (updaters (call_handle h s')))
    \<and> ((\<forall>u w m. B u w m = []) \<longrightarrow>
          register (Suc n) B u s
            = Some (push u s, [Invoked u (cur_value s) (Fin 0) []], Unsubscribe u))"
proof (intro conjI impI allI)
  show "updaters (push u s) = updaters s @ [u]" using assms by (rule updaters_push)
  show "cur_value (push u s) = cur_value s" by (rule cur_value_push)
  show "register n B u s =
        (case invoke n B u (cur_value s) (Fin 0) (push u s) of
           None \<Rightarrow> None
         | Some (s', e) \<Rightarrow> Some (s', [e], Unsubscribe u))"
    by (rule register_eq)
next
  fix s' es h
  assume r: "register n B u s = Some (s', es, h)"
  then obtain e where e: "invoke n B u (cur_value s) (Fin 0) (push u s) = Some (s', e)"
    "es = [e]" "h = Unsubscribe u"
    by (auto simp add: cur_value_push split: option.splits)
  from e show "map call_of es = [(u, cur_value s, Fin 0)]" by (simp add: invoke_call_of)
  from e show "h = Unsubscribe u" by simp
  from e show "updaters (call_handle h s') = filter (\<lambda>i. i \<noteq> u) (updaters s')"
    by (simp add: updaters_unregister)
  from e show "u \<notin> set (updaters (call_handle h s'))"
    by (simp add: updaters_unregister)
next
  assume "\<forall>u w m. B u w m = []"
  then show "register (Suc n) B u s
            = Some (push u s, [Invoked u (cur_value s) (Fin 0) []], Unsubscribe u)"
    by (simp add: cur_value_push)
qed

theorem register_appends_and_syncs_witness:
  "register 1 (\<lambda>u w m. []) 9 \<lparr>cur_value = Str ''v'', updaters_ref = 0, heap = [[7, 8]]\<rparr>
     = Some (\<lparr>cur_value = Str ''v'', updaters_ref = 0, heap = [[7, 8, 9]]\<rparr>,
             [Invoked 9 (Str ''v'') (Fin 0) []], Unsubscribe 9)
   \<and> updaters (call_handle (Unsubscribe 9)
        \<lparr>cur_value = Str ''v'', updaters_ref = 0, heap = [[7, 8, 9]]\<rparr>) = [7, 8]"
  using register_appends_and_syncs [of "\<lparr>cur_value = Str ''v'', updaters_ref = 0, heap = [[7, 8]]\<rparr>"
          9 0 "\<lambda>u w m. []"]
  by (simp add: well_formed_def push_def updaters_def unregister_def)

section \<open>Registrations and removals during a fan-out\<close>

lemma updaters_cur_value: "updaters (s\<lparr>cur_value := v\<rparr>) = updaters s"
  by (simp add: updaters_def)

lemma well_formed_cur_value: "well_formed (s\<lparr>cur_value := v\<rparr>) = well_formed s"
  by (simp add: well_formed_def)

lemma setValue_unregisters:
  assumes "well_formed s" "\<not> strict_eq v (cur_value s)"
    "\<forall>u w m. \<forall>c \<in> set (B u w m). \<exists>x. c = Unregister x"
  shows "\<exists>s'. setValue (Suc n) B v f s
             = Some (s', map (\<lambda>u. Invoked u v (bit_or (f (cur_value s) v) (Fin 0)) [])
                          (updaters s))
           \<and> updaters s'
             = filter (\<lambda>i. \<forall>u \<in> set (updaters s).
                         Unregister i \<notin> set (B u v (bit_or (f (cur_value s) v) (Fin 0))))
                 (updaters s)
           \<and> cur_value s' = v \<and> well_formed s'"
  using notify_snapshot_unregisters[OF assms(3), of n "updaters s" v
      "bit_or (f (cur_value s) v) (Fin 0)" "s\<lparr>cur_value := v\<rparr>"] assms(1,2)
  by (auto simp add: setValue_snapshot updaters_cur_value well_formed_cur_value simp del: setValue.simps)

lemma setValue_returns:
  assumes "well_formed s" "\<forall>u s1. invoke n B u v (bit_or (f (cur_value s) v) (Fin 0)) s1 \<noteq> None"
  shows "setValue n B v f s \<noteq> None"
  using assms notify_snapshot_returns[OF assms(2)]
  by (simp add: setValue_snapshot del: setValue.simps)

text \<open>
  Claim C7. The fan-out of \<open>setValue\<close> walks the subscriber list as it was when the
  fan-out started: \<open>forEach\<close> on the array, with updaters that may register, unregister
  and set values while it runs, does what calling the updaters of a copy of the list made
  at the start does, one after the other. So every entry of the list at the start is
  called, an updater that is unregistered meanwhile included, and an updater registered
  meanwhile is not. The fan-out fails only where a call of an updater fails: if every
  call of an updater returns, \<open>setValue\<close> returns. For updaters that only unregister,
  \<open>setValue\<close> returns, the list afterwards is the old one without the updaters that were
  unregistered meanwhile, and the next \<open>setValue\<close> calls the updaters of that list and no
  others.
\<close>

theorem fanout_iterates_snapshot:
  assumes "well_formed s" "\<not> strict_eq v (cur_value s)"
  shows "setValue n B v f s
           = notify_snapshot n B (updaters s) v (bit_or (f (cur_value s) v) (Fin 0))
               (s\<lparr>cur_value := v\<rparr>)
    \<and> (\<forall>s' es. setValue n B v f s = Some (s', es) \<longrightarrow>
          map call_of es = map (\<lambda>u. (u, v, bit_or (f (cur_value s) v) (Fin 0))) (updaters s))
    \<and> ((\<forall>u s1. invoke n B u v (bit_or (f (cur_value s) v) (Fin 0)) s1 \<noteq> None) \<longrightarrow>
          setValue n B v f s \<noteq> None)
    \<and> ((\<forall>u w m. \<forall>c \<in> set (B u w m). \<exists>x. c = Unregister x) \<longrightarrow>
          (\<exists>s'. setValue (Suc n) B v f s
                   = Some (s', map (\<lambda>u. Invoked u v (bit_or (f (cur_value s) v) (Fin 0)) [])
                                (updaters s))
               \<and> updaters s'
                   = filter (\<lambda>i. \<forall>u \<in> set (updaters s).
                               Unregister i \<notin> set (B u v (bit_or (f (cur_value s) v) (Fin 0))))
                       (updaters s)
               \<and> (\<forall>v2 f2 s2 es2.
                     \<not> strict_eq v2 v \<and> setValue (Suc n) B v2 f2 s' = Some (s2, es2) \<longrightarrow>
                     map call_of es2
                       = map (\<lambda>u. (u, v2, bit_or (f2 v v2) (Fin 0))) (updaters s'))))"
proof (intro conjI impI allI)
  show "setValue n B v f s
           = notify_snapshot n B (updaters s) v (bit_or (f (cur_value s) v) (Fin 0))
               (s\<lparr>cur_value := v\<rparr>)"
    using assms by (simp add: setValue_snapshot del: setValue.simps)
next
  fix s' es
  assume "setValue n B v f s = Some (s', es)"
  with assms show "map call_of es
      = map (\<lambda>u. (u, v, bit_or (f (cur_value s) v) (Fin 0))) (updaters s)"
    by (rule setValue_calls)
next
  assume "\<forall>u s1. invoke n B u v (bit_or (f (cur_value s) v) (Fin 0)) s1 \<noteq> None"
  with assms(1) show "setValue n B v f s \<noteq> None" by (rule setValue_returns)
next
  assume u: "\<forall>u w m. \<forall>c \<in> set (B u w m). \<exists>x. c = Unregister x"
  from setValue_unregisters[OF assms u, of n f] obtain s'
    where h: "setValue (Suc n) B v f s
             = Some (s', map (\<lambda>u. Invoked u v (bit_or (f (cur_value s) v) (Fin 0)) [])
                          (updaters s))"
      "updaters s'
             = filter (\<lambda>i. \<forall>u \<in> set (updaters s).
                         Unregister i \<notin> set (B u v (bit_or (f (cur_value s) v) (Fin 0))))
                 (updaters s)"
      "cur_value s' = v" "well_formed s'"
    by blast
  have "\<forall>v2 f2 s2 es2.
          \<not> strict_eq v2 v \<and> setValue (Suc n) B v2 f2 s' = Some (s2, es2) \<longrightarrow>
          map call_of es2 = map (\<lambda>u. (u, v2, bit_or (f2 v v2) (Fin 0))) (updaters s')"
    using setValue_calls[OF h(4), of _ "Suc n" B] h(3) by blast
  with h(1,2)
  show "\<exists>s'. setValue (Suc n) B v f s
                   = Some (s', map (\<lambda>u. Invoked u v (bit_or (f (cur_value s) v) (Fin 0)) [])
                                (updaters s))
               \<and> updaters s'
                   = filter (\<lambda>i. \<forall>u \<in> set (updaters s).
                               Unregister i \<notin> set (B u v (bit_or (f (cur_value s) v) (Fin 0))))
                       (updaters s)
               \<and> (\<forall>v2 f2 s2 es2.
                     \<not> strict_eq v2 v \<and> setValue (Suc n) B v2 f2 s' = Some (s2, es2) \<longrightarrow>
                     map call_of es2
                       = map (\<lambda>u. (u, v2, bit_or (f2 v v2) (Fin 0))) (updaters s'))"
    by blast
qed

theorem fanout_iterates_snapshot_witness:
  "setValue 1 (\<lambda>u w m. if u = 1 then [Unregister 2] else []) (Num (Fin 5)) defaultBitmaskFactory
      \<lparr>cur_value = Num (Fin 0), updaters_ref = 0, heap = [[1, 2]]\<rparr>
     = Some (\<lparr>cur_value = Num (Fin 5), updaters_ref = 1, heap = [[1, 2], [1]]\<rparr>,
             [Invoked 1 (Num (Fin 5)) (Fin 1073741823) [],
              Invoked 2 (Num (Fin 5)) (Fin 1073741823) []])
   \<and> setValue 1 (\<lambda>u w m. if u = 1 then [Unregister 2] else []) (Num (Fin 6)) defaultBitmaskFactory
      \<lparr>cur_value = Num (Fin 5), updaters_ref = 1, heap = [[1, 2], [1]]\<rparr>
     = Some (\<lparr>cur_value = Num (Fin 6), updaters_ref = 2, heap = [[1, 2], [1], [1]]\<rparr>,
             [Invoked 1 (Num (Fin 6)) (Fin 1073741823) []])
   \<and> setValue 2 (\<lambda>u w m. if u = 1 then [Register 3] else []) (Num (Fin 5)) defaultBitmaskFactory
      \<lparr>cur_value = Num (Fin 0), updaters_ref = 0, heap = [[1, 2]]\<rparr>
     = Some (\<lparr>cur_value = Num (Fin 5), updaters_ref = 0, heap = [[1, 2, 3]]\<rparr>,
             [Invoked 1 (Num (Fin 5)) (Fin 1073741823) [Invoked 3 (Num (Fin 5)) (Fin 0) []],
              Invoked 2 (Num (Fin 5)) (Fin 1073741823) []])"
  using fanout_iterates_snapshot [of
          "\<lparr>cur_value = Num (Fin 0), updaters_ref = 0, heap = [[1, 2]]\<rparr>" "Num (Fin 5)" 2
          "\<lambda>u w m. if u = 1 then [Register 3] else []" defaultBitmaskFactory]
        fanout_iterates_snapshot [of
          "\<lparr>cur_value = Num (Fin 0), updaters_ref = 0, heap = [[1, 2]]\<rparr>" "Num (Fin 5)" 1
          "\<lambda>u w m. if u = 1 then [Unregister 2] else []" defaultBitmaskFactory]
        fanout_iterates_snapshot [of
          "\<lparr>cur_value = Num (Fin 5), updaters_ref = 1, heap = [[1, 2], [1]]\<rparr>" "Num (Fin 6)" 1
          "\<lambda>u w m. if u = 1 then [Unregister 2] else []" defaultBitmaskFactory]
  by (simp add: well_formed_def strict_eq_def updaters_def defaultBitmaskFactory_def bit_or_def
      int32_def js_truncate_def MAX_SIGNED_31_BIT_INT_def unregister_def push_def
      numeral_2_eq_2 del: setValue.simps)

section \<open>An updater that is not registered is not called\<close>

text \<open>
  As long as nothing registers the updater \<open>x\<close>, neither a call in the list nor an updater
  when it runs, an \<open>x\<close> that is not in the subscriber list stays out of it and is not
  called, at any depth.
\<close>

lemma absent_all:
  shows "\<And>s' e. \<lbrakk>\<forall>u' w' m'. Register x \<notin> set (B u' w' m'); well_formed s; x \<notin> set (updaters s); u \<noteq> x;
            invoke n B u v m s = Some (s', e)\<rbrakk>
          \<Longrightarrow> well_formed s' \<and> x \<notin> set (updaters s') \<and> x \<notin> called e"
    and "\<And>s' es. \<lbrakk>\<forall>u' w' m'. Register x \<notin> set (B1 u' w' m'); well_formed s1; x \<notin> set (updaters s1);
            Register x \<notin> set cs; run_calls n1 B1 cs s1 = Some (s', es)\<rbrakk>
          \<Longrightarrow> well_formed s' \<and> x \<notin> set (updaters s') \<and> x \<notin> \<Union> (called ` set es)"
    and "\<And>s' es. \<lbrakk>\<forall>u' w' m'. Register x \<notin> set (B2 u' w' m'); well_formed s2; x \<notin> set (updaters s2);
            c \<noteq> Register x; hub_call n2 B2 c s2 = Some (s', es)\<rbrakk>
          \<Longrightarrow> well_formed s' \<and> x \<notin> set (updaters s') \<and> x \<notin> \<Union> (called ` set es)"
    and "\<And>s' es h. \<lbrakk>\<forall>u' w' m'. Register x \<notin> set (B3 u' w' m'); well_formed s3; x \<notin> set (updaters s3);
            u3 \<noteq> x; register n3 B3 u3 s3 = Some (s', es, h)\<rbrakk>
          \<Longrightarrow> well_formed s' \<and> x \<notin> set (updaters s') \<and> x \<notin> \<Union> (called ` set es)"
    and "\<And>s' es. \<lbrakk>\<forall>u' w' m'. Register x \<notin> set (B4 u' w' m'); well_formed s4; x \<notin> set (updaters s4);
            setValue n4 B4 v4 f4 s4 = Some (s', es)\<rbrakk>
          \<Longrightarrow> well_formed s' \<and> x \<notin> set (updaters s') \<and> x \<notin> \<Union> (called ` set es)"
    and "\<And>s' es. \<lbrakk>\<forall>u' w' m'. Register x \<notin> set (B5 u' w' m'); well_formed s5; x \<notin> set (updaters s5);
            a < length (heap s5); \<forall>k \<in> set ks. k < length (heap s5 ! a) \<and> heap s5 ! a ! k \<noteq> x;
            forEach n5 B5 a ks v5 m5 s5 = Some (s', es)\<rbrakk>
          \<Longrightarrow> well_formed s' \<and> x \<notin> set (updaters s') \<and> x \<notin> \<Union> (called ` set es)"
proof (induct n B u v m s and n1 B1 cs s1 and n2 B2 c s2 and n3 B3 u3 s3 and n4 B4 v4 f4 s4
         and n5 B5 a ks v5 m5 s5
       rule: invoke_run_calls_hub_call_register_setValue_forEach.induct)
  case (1 B u v m s)
  then show ?case by simp
next
  case (2 n B u v m s)
  from "2.prems"(5) obtain es where r: "run_calls n B (B u v m) s = Some (s', es)"
    and e: "e = Invoked u v m es"
    by (auto split: option.splits)
  from "2.prems"(1) have "Register x \<notin> set (B u v m)" by blast
  from "2.hyps"[OF "2.prems"(1,2,3) this r] e "2.prems"(4) show ?case by simp
next
  case (3 n B s)
  then show ?case by simp
next
  case (4 n B c cs s)
  from "4.prems"(5) obtain s1 es1 es2
    where h: "hub_call n B c s = Some (s1, es1)" "run_calls n B cs s1 = Some (s', es2)"
      "es = es1 @ es2"
    by (auto split: option.splits)
  from "4.prems"(4) have c: "c \<noteq> Register x" "Register x \<notin> set cs" by auto
  from "4.hyps"(1)[OF "4.prems"(1,2,3) c(1) h(1)]
  have i1: "well_formed s1" "x \<notin> set (updaters s1)" "x \<notin> \<Union> (called ` set es1)" by simp_all
  from "4.hyps"(2)[OF h(1) refl "4.prems"(1) i1(1,2) c(2) h(2)] i1(3) h(3)
  show ?case by simp
next
  case (5 n B u s)
  from "5.prems"(5) obtain h where r: "register n B u s = Some (s', es, h)"
    by (auto split: option.splits)
  from "5.prems"(4) have "u \<noteq> x" by simp
  from "5.hyps"[OF "5.prems"(1,2,3) this r] show ?case .
next
  case (6 n B u s)
  then show ?case by (auto simp add: well_formed_unregister updaters_unregister)
next
  case (7 n B v f s)
  from "7.prems"(5) have "setValue n B v f s = Some (s', es)" by simp
  from "7.hyps"[OF "7.prems"(1,2,3) this] show ?case .
next
  case (8 n B u s)
  from "8.prems"(5) obtain e
    where i: "invoke n B u (cur_value (push u s)) (Fin 0) (push u s) = Some (s', e)"
      and es: "es = [e]"
    by (auto split: option.splits)
  have "well_formed (push u s)" "x \<notin> set (updaters (push u s))"
    using "8.prems"(2,3,4) by (simp_all add: well_formed_push updaters_push)
  from "8.hyps"[OF "8.prems"(1) this "8.prems"(4) i] es show ?case by simp
next
  case (9 n B newValue bitmaskFactory s)
  show ?case
  proof (cases "strict_eq newValue (cur_value s)")
    case True
    with "9.prems" show ?thesis by simp
  next
    case False
    let ?d = "bit_or (bitmaskFactory (cur_value s) newValue) (Fin 0)"
    let ?s1 = "s\<lparr>cur_value := newValue\<rparr>"
    from False "9.prems"(4)
    have f: "forEach n B (updaters_ref ?s1) [0 ..< length (heap ?s1 ! updaters_ref ?s1)]
               newValue ?d ?s1 = Some (s', es)"
      by (simp add: Let_def)
    have w: "well_formed ?s1" "x \<notin> set (updaters ?s1)"
      using "9.prems"(2,3) by (simp_all add: well_formed_def updaters_def)
    have a: "updaters_ref ?s1 < length (heap ?s1)" using w(1) by (simp add: well_formed_def)
    have k: "\<forall>k \<in> set [0 ..< length (heap ?s1 ! updaters_ref ?s1)].
               k < length (heap ?s1 ! updaters_ref ?s1) \<and> heap ?s1 ! updaters_ref ?s1 ! k \<noteq> x"
      using w(2) by (auto simp add: updaters_def)
    from "9.hyps"[OF False refl refl "9.prems"(1) w a k f] show ?thesis .
  qed
next
  case (10 n B a v m s)
  then show ?case by simp
next
  case (11 n B a k ks v m s)
  from "11.prems"(5) have k: "k < length (heap s ! a)" "heap s ! a ! k \<noteq> x"
    and ks: "\<forall>j \<in> set ks. j < length (heap s ! a) \<and> heap s ! a ! j \<noteq> x"
    by simp_all
  from k(1) "11.prems"(6) obtain s1 e es1
    where h: "invoke n B (heap s ! a ! k) v m s = Some (s1, e)"
      "forEach n B a ks v m s1 = Some (s', es1)" "es = e # es1"
    by (auto split: option.splits)
  from "11.hyps"(1)[OF k(1) "11.prems"(1,2,3) k(2) h(1)]
  have i1: "well_formed s1" "x \<notin> set (updaters s1)" "x \<notin> called e" by simp_all
  from h(1) have g: "grows s s1" by (rule grows_all(1))
  have a1: "a < length (heap s1)" using grows_nth(1)[OF g "11.prems"(4) k(1)] .
  have ks1: "\<forall>j \<in> set ks. j < length (heap s1 ! a) \<and> heap s1 ! a ! j \<noteq> x"
    using ks grows_nth(2,3)[OF g "11.prems"(4)] by simp
  from "11.hyps"(2)[OF k(1) h(1) refl "11.prems"(1) i1(1,2) a1 ks1 h(2)] i1(3) h(3)
  show ?case by simp
qed

text \<open>
  With updaters that make no calls of their own, every sequence of calls on the provider
  returns.
\<close>

lemma hub_call_inert:
  assumes "well_formed s" "\<forall>u w m. B u w m = []"
  shows "\<exists>s' es. hub_call (Suc n) B c s = Some (s', es) \<and> well_formed s'"
proof (cases c)
  case (Register u)
  with assms show ?thesis by (simp add: well_formed_push)
next
  case (Unregister u)
  then show ?thesis by (simp add: well_formed_unregister)
next
  case (SetValue v f)
  show ?thesis
  proof (cases "strict_eq v (cur_value s)")
    case True
    with SetValue assms(1) show ?thesis by simp
  next
    case False
    from setValue_inert[OF assms(1) False assms(2), of n f] SetValue assms(1)
    show ?thesis by (simp add: well_formed_cur_value del: setValue.simps)
  qed
qed

lemma run_calls_inert:
  assumes "\<forall>u w m. B u w m = []"
  shows "well_formed s \<Longrightarrow> \<exists>s' es. run_calls (Suc n) B cs s = Some (s', es)"
proof (induction cs arbitrary: s)
  case Nil
  then show ?case by simp
next
  case (Cons c cs)
  from hub_call_inert[OF Cons.prems assms, of n c] obtain s1 es1
    where h: "hub_call (Suc n) B c s = Some (s1, es1)" "well_formed s1"
    by blast
  from Cons.IH[OF h(2)] obtain s2 es2 where "run_calls (Suc n) B cs s1 = Some (s2, es2)"
    by blast
  with h(1) show ?case by simp
qed

text \<open>
  Claim C6, amended. \<open>register\<close> calls the updater once, with the current value and the
  descriptor 0: for an updater that makes no calls of its own, \<open>register\<close> returns and
  this is the one call made, and whatever the updater does, it is the one call \<open>register\<close>
  itself makes. After \<open>register\<close> and then \<open>unregister\<close> of the same updater, the updater is
  not in the subscriber list, and no later sequence of \<open>setValue\<close>, \<open>unregister\<close> and
  \<open>register\<close> calls on the provider calls it again, at any depth, as long as nothing
  registers it again; with updaters that make no calls of their own, every such sequence
  returns.
\<close>

theorem register_then_unregister:
  assumes "well_formed s"
  shows "((\<forall>u' w m. B u' w m = []) \<longrightarrow>
            register (Suc n) B u s
              = Some (push u s, [Invoked u (cur_value s) (Fin 0) []], Unsubscribe u)
            \<and> (\<forall>cs. Register u \<notin> set cs \<longrightarrow>
                  (\<exists>s2 es2. run_calls (Suc n) B cs (unregister u (push u s)) = Some (s2, es2)
                      \<and> u \<notin> \<Union> (called ` set es2) \<and> u \<notin> set (updaters s2))))
    \<and> (\<forall>s1 es h. register n B u s = Some (s1, es, h) \<longrightarrow>
          map call_of es = [(u, cur_value s, Fin 0)]
          \<and> u \<notin> set (updaters (unregister u s1))
          \<and> ((\<forall>u' w m. Register u \<notin> set (B u' w m)) \<longrightarrow>
               (\<forall>cs n' s2 es2.
                  Register u \<notin> set cs \<and> run_calls n' B cs (unregister u s1) = Some (s2, es2) \<longrightarrow>
                  u \<notin> \<Union> (called ` set es2) \<and> u \<notin> set (updaters s2))))"
proof (intro conjI impI allI)
  assume "\<forall>u' w m. B u' w m = []"
  then show "register (Suc n) B u s
      = Some (push u s, [Invoked u (cur_value s) (Fin 0) []], Unsubscribe u)"
    by (simp add: cur_value_push)
next
  fix cs
  assume b: "\<forall>u' w m. B u' w m = []" and c: "Register u \<notin> set cs"
  have w: "well_formed (unregister u (push u s))"
    "u \<notin> set (updaters (unregister u (push u s)))"
    by (simp_all add: well_formed_unregister updaters_unregister)
  from run_calls_inert[OF b w(1), of n cs] obtain s2 es2
    where r: "run_calls (Suc n) B cs (unregister u (push u s)) = Some (s2, es2)"
    by blast
  from b have nr: "\<forall>u' w m. Register u \<notin> set (B u' w m)" by simp
  from absent_all(2)[OF nr w c r] r
  show "\<exists>s2 es2. run_calls (Suc n) B cs (unregister u (push u s)) = Some (s2, es2)
          \<and> u \<notin> \<Union> (called ` set es2) \<and> u \<notin> set (updaters s2)"
    by blast
next
  fix s1 es h
  assume "register n B u s = Some (s1, es, h)"
  then obtain e where "invoke n B u (cur_value s) (Fin 0) (push u s) = Some (s1, e)" "es = [e]"
    by (auto simp add: cur_value_push split: option.splits)
  then show "map call_of es = [(u, cur_value s, Fin 0)]" by (simp add: invoke_call_of)
next
  fix s1
  show "u \<notin> set (updaters (unregister u s1))" by (simp add: updaters_unregister)
next
  fix s1 cs n' s2 es2
  assume nr: "\<forall>u' w m. Register u \<notin> set (B u' w m)"
    and c: "Register u \<notin> set cs \<and> run_calls n' B cs (unregister u s1) = Some (s2, es2)"
  have w: "well_formed (unregister u s1)" "u \<notin> set (updaters (unregister u s1))"
    by (simp_all add: well_formed_unregister updaters_unregister)
  from c have c1: "Register u \<notin> set cs"
    and c2: "run_calls n' B cs (unregister u s1) = Some (s2, es2)"
    by simp_all
  from absent_all(2)[OF nr w c1 c2]
  show "u \<notin> \<Union> (called ` set es2)" and "u \<notin> set (updaters s2)" by simp_all
qed

theorem register_then_unregister_witness:
  "register 1 (\<lambda>u w m. []) 9 \<lparr>cur_value = Num (Fin 0), updaters_ref = 0, heap = [[7]]\<rparr>
     = Some (\<lparr>cur_value = Num (Fin 0), updaters_ref = 0, heap = [[7, 9]]\<rparr>,
             [Invoked 9 (Num (Fin 0)) (Fin 0) []], Unsubscribe 9)
   \<and> run_calls 1 (\<lambda>u w m. [])
        [SetValue (Num (Fin 1)) defaultBitmaskFactory, SetValue (Num (Fin 2)) defaultBitmaskFactory]
        (unregister 9 \<lparr>cur_value = Num (Fin 0), updaters_ref = 0, heap = [[7, 9]]\<rparr>)
     = Some (\<lparr>cur_value = Num (Fin 2), updaters_ref = 1, heap = [[7, 9], [7]]\<rparr>,
             [Invoked 7 (Num (Fin 1)) (Fin 1073741823) [],
              Invoked 7 (Num (Fin 2)) (Fin 1073741823) []])
   \<and> 9 \<notin> \<Union> (called ` set [Invoked 7 (Num (Fin 1)) (Fin 1073741823) [],
              Invoked 7 (Num (Fin 2)) (Fin 1073741823) []])
   \<and> 9 \<notin> set (updaters \<lparr>cur_value = Num (Fin 2), updaters_ref = 1, heap = [[7, 9], [7]]\<rparr>)"
proof -
  let ?s = "\<lparr>cur_value = Num (Fin 0), updaters_ref = 0, heap = [[7]]\<rparr>"
  let ?cs = "[SetValue (Num (Fin 1)) defaultBitmaskFactory,
              SetValue (Num (Fin 2)) defaultBitmaskFactory]"
  have w: "well_formed ?s" by (simp add: well_formed_def)
  have p: "push 9 ?s = \<lparr>cur_value = Num (Fin 0), updaters_ref = 0, heap = [[7, 9]]\<rparr>"
    by (simp add: push_def)
  have q: "run_calls 1 (\<lambda>u w m. []) ?cs
        (unregister 9 \<lparr>cur_value = Num (Fin 0), updaters_ref = 0, heap = [[7, 9]]\<rparr>)
     = Some (\<lparr>cur_value = Num (Fin 2), updaters_ref = 1, heap = [[7, 9], [7]]\<rparr>,
             [Invoked 7 (Num (Fin 1)) (Fin 1073741823) [],
              Invoked 7 (Num (Fin 2)) (Fin 1073741823) []])"
    by (simp add: setValue_snapshot well_formed_def strict_eq_def updaters_def
        defaultBitmaskFactory_def bit_or_def int32_def js_truncate_def
        MAX_SIGNED_31_BIT_INT_def unregister_def del: setValue.simps)
  have c: "Register 9 \<notin> set ?cs" by simp
  have b: "\<forall>(u' :: updater) (w :: jsval) (m :: number). ([] :: call list) = []" by simp
  note t = register_then_unregister [OF w, of "\<lambda>u w m. []" 0 9, THEN conjunct1, THEN mp, OF b]
  from t have r: "register (Suc 0) (\<lambda>u w m. []) 9 ?s
             = Some (push 9 ?s, [Invoked 9 (cur_value ?s) (Fin 0) []], Unsubscribe 9)"
    by (rule conjunct1)
  from t [THEN conjunct2, THEN spec, THEN mp, OF c]
  obtain s2 es2
    where a: "run_calls (Suc 0) (\<lambda>u w m. []) ?cs (unregister 9 (push 9 ?s)) = Some (s2, es2)"
      "9 \<notin> \<Union> (called ` set es2)" "9 \<notin> set (updaters s2)"
    by blast
  from a(1) q p have "s2 = \<lparr>cur_value = Num (Fin 2), updaters_ref = 1, heap = [[7, 9], [7]]\<rparr>"
    and "es2 = [Invoked 7 (Num (Fin 1)) (Fin 1073741823) [],
              Invoked 7 (Num (Fin 2)) (Fin 1073741823) []]"
    by simp_all
  with a(2,3) have "9 \<notin> \<Union> (called ` set [Invoked 7 (Num (Fin 1)) (Fin 1073741823) [],
              Invoked 7 (Num (Fin 2)) (Fin 1073741823) []])"
    and "9 \<notin> set (updaters \<lparr>cur_value = Num (Fin 2), updaters_ref = 1, heap = [[7, 9], [7]]\<rparr>)"
    by simp_all
  with r p q show ?thesis by simp
qed

text \<open>
  Claim C6, as stated, fails: an updater that is registered and unregistered at once has
  been called. \<open>register\<close> itself calls it, with the current value and 0, before the
  \<open>unregister\<close> takes it out of the list.
\<close>

theorem register_calls_updater_counterexample:
  "register 1 (\<lambda>u w m. []) 9 (new_ContextProvider (Str ''v''))
     = Some (\<lparr>cur_value = Str ''v'', updaters_ref = 0, heap = [[9]]\<rparr>,
             [Invoked 9 (Str ''v'') (Fin 0) []], Unsubscribe 9)
   \<and> updaters (unregister 9 \<lparr>cur_value = Str ''v'', updaters_ref = 0, heap = [[9]]\<rparr>) = []"
  by (simp add: new_ContextProvider_def push_def updaters_def unregister_def)

end
